theory Spec2Isabelle
  imports Complex_Main "HOL-Library.Sublist" "HOL-Library.Log_Nat"
begin

section \<open>Cells, rows and frames\<close>

text \<open>
  A Python set tells two not-a-number floats apart by the objects that hold them, so a
  NaN carries the identity of its object: \<open>Stored a\<close> is the float object \<open>a\<close> kept in
  a column of dtype object, \<open>Unboxed\<close> is a NaN in a column of dtype float64, which is
  no object until a row is read, and \<open>Boxed i\<close> is the object made for it when row
  \<open>i\<close> is read.
\<close>

datatype nan_object = Unboxed | Boxed nat | Stored nat

text \<open>
  A cell of a data frame is a Python scalar. \<open>PyNone\<close> is \<^verbatim>\<open>None\<close>, \<open>NaN\<close> is the float
  not-a-number, \<open>Num\<close> is any finite number (Python compares \<^verbatim>\<open>int\<close> and \<^verbatim>\<open>float\<close> by
  value, so one constructor carries both) and \<open>Str\<close> is a string. Two cells are equal
  exactly when a Python set takes them for the same member: the same object, or equal
  values.
\<close>

datatype cell = PyNone | NaN nan_object | Num real | Str string

text \<open>\<^verbatim>\<open>pd.isna(x)\<close> on a scalar.\<close>

fun isna :: "cell \<Rightarrow> bool" where
  "isna PyNone = True"
| "isna (NaN _) = True"
| "isna (Num _) = False"
| "isna (Str _) = False"

fun is_nan :: "cell \<Rightarrow> bool" where
  "is_nan (NaN _) = True"
| "is_nan PyNone = False"
| "is_nan (Num _) = False"
| "is_nan (Str _) = False"

text \<open>
  \<^verbatim>\<open>x != y\<close> on scalars: a NaN is unequal to everything, itself included; otherwise
  values are unequal when they are different values.
\<close>

definition py_ne :: "cell \<Rightarrow> cell \<Rightarrow> bool" where
  "py_ne x y = (is_nan x \<or> is_nan y \<or> x \<noteq> y)"

section \<open>Reading a row\<close>

text \<open>
  The integer \<open>n\<close> converted to float64, as an integer again: beyond 53 bits the value
  is rounded to the nearest multiple of the spacing of the floats around it, a tie
  going to the even neighbour. (Every 64-bit integer is far below the float64 range.)
\<close>

definition round_float64 :: "int \<Rightarrow> int" where
  "round_float64 n =
     (let a = \<bar>n\<bar>; s = nat (bitlen a - 53) in
      if s = 0 then n
      else let q = a div 2 ^ s; r = a mod 2 ^ s; h = 2 ^ (s - 1);
               q' = (if h < r \<or> (r = h \<and> odd q) then q + 1 else q)
           in sgn n * (q' * 2 ^ s))"

text \<open>
  A number cast to float64: a whole number is rounded as above, a number with a
  fraction is a float already.
\<close>

definition float64_of :: "real \<Rightarrow> real" where
  "float64_of x = (if x = of_int \<lfloor>x\<rfloor> then of_int (round_float64 \<lfloor>x\<rfloor>) else x)"

text \<open>The dtypes of the columns the program meets.\<close>

datatype dtype = Int64 | Float64 | Object

text \<open>
  The exceptions the code can meet. A \<^verbatim>\<open>KeyError\<close> carries the label that was not found:
  a row label of \<^verbatim>\<open>df.loc[i]\<close> or a column label of \<^verbatim>\<open>row[col]\<close>.
\<close>

datatype label = Row nat | Col string

datatype error =
    KeyError label
  | ValueError
  | UnboundLocalError
  | ConnectionError
  | QueryError

text \<open>
  A data frame: its column labels in schema order, the dtype of each column, and its
  rows, each row holding one cell per column. Both frames are passed through
  \<^verbatim>\<open>reset_index(drop=True)\<close> before use, so the row labels are the positions
  \<open>0, 1, ...\<close> of the list.
\<close>

record frame =
  columns :: "string list"
  dtypes :: "dtype list"
  rows :: "cell list list"

text \<open>
  A row is read as one Series with the common dtype of the columns. That dtype is
  float64 when every column is numeric and one of them is float64; with a column of
  dtype object the row is a Series of Python objects, and with integer columns only it
  is an integer Series.
\<close>

definition float_row :: "frame \<Rightarrow> bool" where
  "float_row df = (Float64 \<in> set (dtypes df) \<and> Object \<notin> set (dtypes df))"

text \<open>
  One cell as it sits in the Series of row \<open>i\<close>: in a float64 row every number is cast
  to float64, and a NaN of a float64 column becomes an object of that row. The reads
  of one row give the same tag: only one of them is put into a set.
\<close>

fun read_cell :: "bool \<Rightarrow> nat \<Rightarrow> cell \<Rightarrow> cell" where
  "read_cell as_float i (Num x) = (if as_float then Num (float64_of x) else Num x)"
| "read_cell as_float i (NaN Unboxed) = NaN (Boxed i)"
| "read_cell as_float i (NaN (Boxed k)) = NaN (Boxed k)"
| "read_cell as_float i (NaN (Stored a)) = NaN (Stored a)"
| "read_cell as_float i PyNone = PyNone"
| "read_cell as_float i (Str s) = Str s"

definition row_values :: "frame \<Rightarrow> nat \<Rightarrow> cell list" where
  "row_values df i = map (read_cell (float_row df) i) (rows df ! i)"


text \<open>A row taken out of a frame is a Series: the cells under their column labels.\<close>

type_synonym series = "(string \<times> cell) list"

text \<open>\<^verbatim>\<open>df.loc[i]\<close>: the row with label \<open>i\<close> as a Series, or \<^verbatim>\<open>KeyError\<close>.\<close>

definition loc :: "frame \<Rightarrow> nat \<Rightarrow> error + series" where
  "loc df i =
     (if i < length (rows df) then Inr (zip (columns df) (row_values df i))
      else Inl (KeyError (Row i)))"

text \<open>
  \<^verbatim>\<open>row[col]\<close> used as a scalar. An absent label raises \<^verbatim>\<open>KeyError\<close>. A label that
  occurs more than once selects a sub-Series, and every use the code makes of the
  result (a truth test) then raises \<^verbatim>\<open>ValueError\<close>.
\<close>

definition getitem :: "series \<Rightarrow> string \<Rightarrow> error + cell" where
  "getitem s col =
     (case filter (\<lambda>p. fst p = col) s of
        [] \<Rightarrow> Inl (KeyError (Col col))
      | [p] \<Rightarrow> Inr (snd p)
      | _ \<Rightarrow> Inl ValueError)"

text \<open>
  \<^verbatim>\<open>d[k] = v\<close> on a Python dict, which keeps insertion order: an existing key keeps
  its place, a new key goes to the end.
\<close>

fun dict_set :: "(string \<times> cell) list \<Rightarrow> string \<Rightarrow> cell \<Rightarrow> (string \<times> cell) list" where
  "dict_set [] k v = [(k, v)]"
| "dict_set (p # ps) k v = (if fst p = k then (k, v) # ps else p # dict_set ps k v)"

text \<open>
  \<^verbatim>\<open>s.add(k)\<close> on a Python set, kept as the list of its members in order of arrival:
  \<open>k\<close> is added unless the set has a member that is the same object or is equal to
  it. For a NaN only the same object counts, so one NaN object read from two rows is
  one member, and two NaN objects are two.
\<close>

definition set_add :: "cell list \<Rightarrow> cell \<Rightarrow> cell list" where
  "set_add ks k = (if k \<in> set ks then ks else ks @ [k])"

section \<open>Finding the changed cells\<close>

record change =
  key :: cell
  column :: string
  new_value :: cell

text \<open>
  The loop over the columns of one row: \<open>row_changes\<close> is the dict of the row's changed
  columns.
\<close>

fun row_diff :: "series \<Rightarrow> series \<Rightarrow> string list \<Rightarrow> (string \<times> cell) list
    \<Rightarrow> error + (string \<times> cell) list" where
  "row_diff original_row edited_row [] row_changes = Inr row_changes"
| "row_diff original_row edited_row (col # cols) row_changes =
     (case getitem original_row col of
        Inl e \<Rightarrow> Inl e
      | Inr ov \<Rightarrow>
          (case getitem edited_row col of
             Inl e \<Rightarrow> Inl e
           | Inr ev \<Rightarrow>
               if isna ov \<and> isna ev then row_diff original_row edited_row cols row_changes
               else if py_ne ov ev
                 then row_diff original_row edited_row cols (dict_set row_changes col ev)
                 else row_diff original_row edited_row cols row_changes))"

text \<open>
  The body of the loop over the row labels, on the pair of \<open>updated_keys\<close> and
  \<open>changes\<close>.
\<close>

definition row_body :: "frame \<Rightarrow> frame \<Rightarrow> string \<Rightarrow> nat \<Rightarrow> cell list \<times> change list
    \<Rightarrow> error + cell list \<times> change list" where
  "row_body original_df edited_df unique_col i acc =
     (case loc original_df i of
        Inl e \<Rightarrow> Inl e
      | Inr original_row \<Rightarrow>
          (case loc edited_df i of
             Inl e \<Rightarrow> Inl e
           | Inr edited_row \<Rightarrow>
               (case row_diff original_row edited_row (columns original_df) [] of
                  Inl e \<Rightarrow> Inl e
                | Inr row_changes \<Rightarrow>
                    if row_changes \<noteq> [] then
                      (case getitem original_row unique_col of
                         Inl e \<Rightarrow> Inl e
                       | Inr k \<Rightarrow>
                           Inr (set_add (fst acc) k,
                                snd acc @ map (\<lambda>p. \<lparr>key = k, column = fst p, new_value = snd p\<rparr>)
                                            row_changes))
                    else Inr acc)))"

fun reconcile_rows :: "frame \<Rightarrow> frame \<Rightarrow> string \<Rightarrow> nat list \<Rightarrow> cell list \<times> change list
    \<Rightarrow> error + cell list \<times> change list" where
  "reconcile_rows original_df edited_df unique_col [] acc = Inr acc"
| "reconcile_rows original_df edited_df unique_col (i # is) acc =
     (case row_body original_df edited_df unique_col i acc of
        Inl e \<Rightarrow> Inl e
      | Inr acc' \<Rightarrow> reconcile_rows original_df edited_df unique_col is acc')"

text \<open>
  The first half of \<^verbatim>\<open>update_changed_cells\<close>: \<open>updated_keys\<close> and \<open>changes\<close> after the
  loop over \<^verbatim>\<open>range(len(original_df))\<close>.
\<close>

definition reconcile :: "frame \<Rightarrow> frame \<Rightarrow> string \<Rightarrow> error + cell list \<times> change list" where
  "reconcile original_df edited_df unique_col =
     reconcile_rows original_df edited_df unique_col [0..<length (rows original_df)] ([], [])"

text \<open>The changes that the loop body appends for row \<open>i\<close>.\<close>

definition row_changes_of :: "frame \<Rightarrow> frame \<Rightarrow> string \<Rightarrow> nat \<Rightarrow> change list" where
  "row_changes_of original_df edited_df unique_col i =
     (case row_body original_df edited_df unique_col i ([], []) of
        Inl e \<Rightarrow> []
      | Inr acc \<Rightarrow> snd acc)"

text \<open>
  A snapshot as the specification has it: every row maps each column name to one cell,
  so the column names are distinct and every row has one cell per column.
\<close>

definition wf_frame :: "frame \<Rightarrow> bool" where
  "wf_frame df = (distinct (columns df) \<and> list_all (\<lambda>r. length r = length (columns df)) (rows df))"

text \<open>The test of the two \<^verbatim>\<open>if\<close>s on one cell: not null on both sides, and unequal.\<close>

definition cell_changed :: "cell \<Rightarrow> cell \<Rightarrow> bool" where
  "cell_changed ov ev = (\<not> (isna ov \<and> isna ev) \<and> py_ne ov ev)"



section \<open>The database session\<close>

text \<open>
  The statements the program sends: the full-table select of \<^verbatim>\<open>get_data\<close>, the
  parameterized update of one cell (table, column set, unique column of the
  \<^verbatim>\<open>WHERE\<close>, and the two parameters: new value and key), and the add-column statement.
\<close>

datatype statement =
    SelectAll string
  | Update string string string cell cell
  | AddColumn string string

text \<open>
  What the page shows: \<open>Success n\<close> is "n row(s) updated", \<open>Error e\<close> is the error box of
  the update, \<open>Info\<close> is "No changes to save.", \<open>ColumnAdded\<close> and \<open>AddFailed\<close> are the
  two messages of the add-column form.
\<close>

datatype message =
    Success nat
  | Error error
  | Info
  | ColumnAdded string
  | AddFailed error

text \<open>
  The database and the page around the program. The driver and the server are not part
  of the repository, so their behaviour is a parameter of the world: whether a
  connection can be made (\<open>reachable\<close>), whether the session commits each statement as
  it runs (\<open>autocommit\<close>; \<^verbatim>\<open>get_connection\<close> passes no setting of its own), which
  statements the database refuses (\<open>rejects\<close>) and what a full-table select returns for
  a given history of committed statements (\<open>contents\<close>). The state proper is the list
  of committed statements, the number of connections that are open, and the messages
  shown. Opening a cursor, closing it and committing are taken to succeed.
\<close>

record world =
  reachable :: bool
  autocommit :: bool
  rejects :: "statement \<Rightarrow> bool"
  contents :: "statement list \<Rightarrow> string \<Rightarrow> frame"
  committed :: "statement list"
  open_connections :: nat
  messages :: "message list"

text \<open>A connection holds the statements it has run and not yet committed.\<close>

record connection =
  pending :: "statement list"

definition get_connection :: "world \<Rightarrow> error + connection \<times> world" where
  "get_connection w =
     (if reachable w then Inr (\<lparr>pending = []\<rparr>, w\<lparr>open_connections := Suc (open_connections w)\<rparr>)
      else Inl ConnectionError)"

text \<open>
  \<^verbatim>\<open>cursor.execute\<close>: a refused statement raises and changes nothing; an accepted one
  is committed at once under autocommit and is pending otherwise.
\<close>

definition cursor_execute :: "statement \<Rightarrow> connection \<Rightarrow> world \<Rightarrow> error option \<times> connection \<times> world" where
  "cursor_execute s conn w =
     (if rejects w s then (Some QueryError, conn, w)
      else if autocommit w then (None, conn, w\<lparr>committed := committed w @ [s]\<rparr>)
      else (None, conn\<lparr>pending := pending conn @ [s]\<rparr>, w))"

definition conn_commit :: "connection \<Rightarrow> world \<Rightarrow> connection \<times> world" where
  "conn_commit conn w = (conn\<lparr>pending := []\<rparr>, w\<lparr>committed := committed w @ pending conn\<rparr>)"

text \<open>\<^verbatim>\<open>conn.close()\<close>: the connection is released; what is still pending is dropped.\<close>

definition conn_close :: "connection \<Rightarrow> world \<Rightarrow> world" where
  "conn_close conn w = w\<lparr>open_connections := open_connections w - 1\<rparr>"

definition display :: "message \<Rightarrow> world \<Rightarrow> world" where
  "display m w = w\<lparr>messages := messages w @ [m]\<rparr>"

section \<open>Loading the table\<close>

text \<open>
  \<^verbatim>\<open>get_data\<close>: an exception of \<^verbatim>\<open>get_connection\<close> or of \<^verbatim>\<open>pd.read_sql\<close> leaves the
  function at once; \<^verbatim>\<open>conn.close()\<close> is the statement after the read.
\<close>

definition get_data :: "world \<Rightarrow> string \<Rightarrow> (error + frame) \<times> world" where
  "get_data w table =
     (case get_connection w of
        Inl e \<Rightarrow> (Inl e, w)
      | Inr (conn, w1) \<Rightarrow>
          if rejects w1 (SelectAll table) then (Inl QueryError, w1)
          else (Inr (contents w1 (committed w1) table), conn_close conn w1))"

section \<open>Writing the changes\<close>

definition update_statement :: "string \<Rightarrow> string \<Rightarrow> change \<Rightarrow> statement" where
  "update_statement table_name unique_col ch =
     Update table_name (column ch) unique_col (new_value ch) (key ch)"

text \<open>
  The \<^verbatim>\<open>for change in changes\<close> loop inside the \<^verbatim>\<open>try\<close>: it stops at the first
  statement that raises.
\<close>

fun run_batch :: "string \<Rightarrow> string \<Rightarrow> change list \<Rightarrow> connection \<Rightarrow> world
    \<Rightarrow> error option \<times> connection \<times> world" where
  "run_batch table_name unique_col [] conn w = (None, conn, w)"
| "run_batch table_name unique_col (ch # chs) conn w =
     (case cursor_execute (update_statement table_name unique_col ch) conn w of
        (Some e, conn', w') \<Rightarrow> (Some e, conn', w')
      | (None, conn', w') \<Rightarrow> run_batch table_name unique_col chs conn' w')"

text \<open>
  The second half of \<^verbatim>\<open>update_changed_cells\<close>, from \<^verbatim>\<open>if changes:\<close> on. The result
  is the exception that leaves the function, if any, and the world afterwards.
  \<^verbatim>\<open>get_connection\<close> is called before the \<^verbatim>\<open>try\<close>, so its exception is not caught.
\<close>

definition apply_changes :: "world \<Rightarrow> string \<Rightarrow> string \<Rightarrow> cell list \<times> change list
    \<Rightarrow> error option \<times> world" where
  "apply_changes w table_name unique_col kc =
     (if snd kc \<noteq> [] then
        (case get_connection w of
           Inl e \<Rightarrow> (Some e, w)
         | Inr (conn, w1) \<Rightarrow>
             (case run_batch table_name unique_col (snd kc) conn w1 of
                (None, conn2, w2) \<Rightarrow>
                  (case conn_commit conn2 w2 of
                     (conn3, w3) \<Rightarrow>
                       (None, conn_close conn3 (display (Success (length (fst kc))) w3)))
              | (Some e, conn2, w2) \<Rightarrow>
                  (None, conn_close conn2 (display (Error e) w2))))
      else (None, display Info w))"

definition update_changed_cells :: "world \<Rightarrow> frame \<Rightarrow> frame \<Rightarrow> string \<Rightarrow> string
    \<Rightarrow> error option \<times> world" where
  "update_changed_cells w original_df edited_df table_name unique_col =
     (case reconcile original_df edited_df unique_col of
        Inl e \<Rightarrow> (Some e, w)
      | Inr kc \<Rightarrow> apply_changes w table_name unique_col kc)"

section \<open>Adding a column\<close>

text \<open>
  \<^verbatim>\<open>add_column_to_snowflake\<close>: here \<^verbatim>\<open>get_connection\<close> is inside the \<^verbatim>\<open>try\<close>. When it
  raises, the \<^verbatim>\<open>except\<close> branch shows the message and the \<^verbatim>\<open>finally\<close> branch reads
  the local \<^verbatim>\<open>cursor\<close>, which was never bound.
\<close>

definition add_column_to_snowflake :: "world \<Rightarrow> string \<Rightarrow> string \<Rightarrow> error option \<times> world" where
  "add_column_to_snowflake w table_name column_name =
     (case get_connection w of
        Inl e \<Rightarrow> (Some UnboundLocalError, display (AddFailed e) w)
      | Inr (conn, w1) \<Rightarrow>
          (case cursor_execute (AddColumn table_name column_name) conn w1 of
             (None, conn2, w2) \<Rightarrow>
               (case conn_commit conn2 w2 of
                  (conn3, w3) \<Rightarrow> (None, conn_close conn3 (display (ColumnAdded column_name) w3)))
           | (Some e, conn2, w2) \<Rightarrow> (None, conn_close conn2 (display (AddFailed e) w2))))"

section \<open>The page and its save button\<close>

definition rows_per_page :: nat where
  "rows_per_page = 3"

text \<open>\<^verbatim>\<open>df1_filtered.iloc[start_idx:end_idx]\<close>.\<close>

definition df1_page :: "frame \<Rightarrow> nat \<Rightarrow> frame" where
  "df1_page df1_filtered page_structure =
     (let start_idx = page_structure * rows_per_page;
          end_idx = start_idx + rows_per_page
      in df1_filtered\<lparr>rows := take (end_idx - start_idx) (drop start_idx (rows df1_filtered))\<rparr>)"

text \<open>
  The save button. The grid is given the page and hands back its data after the user's
  edits (\<open>grid\<close>, a parameter); the original passed on is the whole filtered frame.
\<close>

definition save_changes :: "world \<Rightarrow> (frame \<Rightarrow> frame) \<Rightarrow> frame \<Rightarrow> nat \<Rightarrow> error option \<times> world" where
  "save_changes w grid df1_filtered page_structure =
     (let edited_df1 = grid (df1_page df1_filtered page_structure)
      in update_changed_cells w df1_filtered edited_df1 ''SampleTest'' ''CODE'')"

section \<open>Example data\<close>



text \<open>
  Two rows with nulls in both representations. In the edited frame the key of the
  first row is changed, its null name changes representation, and both \<open>X\<close> cells are
  changed.
\<close>

definition nulls_original :: frame where
  "nulls_original = \<lparr>columns = [''CODE'', ''NAME'', ''X''], dtypes = [Object, Object, Float64],
     rows = [[Str ''A1'', PyNone, NaN Unboxed], [Str ''A2'', Str ''foo'', Num 2]]\<rparr>"

definition nulls_edited :: frame where
  "nulls_edited = \<lparr>columns = [''CODE'', ''NAME'', ''X''], dtypes = [Object, Object, Float64],
     rows = [[Str ''B7'', NaN (Stored 0), Num 4], [Str ''A2'', Str ''foo'', Num 5]]\<rparr>"





text \<open>
  Two rows whose key is a NaN: in the first pair both rows hold the same NaN object in
  an object column, in the second pair the key column is a float64 column.
\<close>

definition same_nan_original :: frame where
  "same_nan_original = \<lparr>columns = [''CODE'', ''NAME''], dtypes = [Object, Object],
     rows = [[NaN (Stored 0), Str ''a''], [NaN (Stored 0), Str ''b'']]\<rparr>"

definition same_nan_edited :: frame where
  "same_nan_edited = \<lparr>columns = [''CODE'', ''NAME''], dtypes = [Object, Object],
     rows = [[NaN (Stored 0), Str ''c''], [NaN (Stored 0), Str ''d'']]\<rparr>"

definition float_nan_original :: frame where
  "float_nan_original = \<lparr>columns = [''CODE'', ''NAME''], dtypes = [Float64, Object],
     rows = [[NaN Unboxed, Str ''a''], [NaN Unboxed, Str ''b'']]\<rparr>"

definition float_nan_edited :: frame where
  "float_nan_edited = \<lparr>columns = [''CODE'', ''NAME''], dtypes = [Float64, Object],
     rows = [[NaN Unboxed, Str ''c''], [NaN Unboxed, Str ''d'']]\<rparr>"

text \<open>Five rows, more than one page of the grid.\<close>

definition five_rows :: frame where
  "five_rows = \<lparr>columns = [''CODE'', ''NAME''], dtypes = [Object, Object],
     rows = [[Str ''A1'', Str ''a''], [Str ''A2'', Str ''b''], [Str ''A3'', Str ''c''],
             [Str ''A4'', Str ''d''], [Str ''A5'', Str ''e'']]\<rparr>"

text \<open>
  Example worlds. All can be connected to. \<open>accepting_world\<close> refuses nothing and
  commits on request; \<open>deferring_world\<close> and \<open>failing_world\<close> refuse the update of \<open>X\<close>
  in row \<open>A2\<close>, the first committing on request and the second committing each statement
  as it runs; \<open>failing_read_world\<close> refuses the select on the table.
\<close>

definition accepting_world :: world where
  "accepting_world = \<lparr>reachable = True, autocommit = False,
     rejects = (\<lambda>s. False),
     contents = (\<lambda>log table. nulls_original),
     committed = [], open_connections = 0, messages = []\<rparr>"

definition deferring_world :: world where
  "deferring_world = \<lparr>reachable = True, autocommit = False,
     rejects = (\<lambda>s. s = Update ''SampleTest'' ''X'' ''CODE'' (Num 5) (Str ''A2'')),
     contents = (\<lambda>log table. nulls_original),
     committed = [], open_connections = 0, messages = []\<rparr>"

definition failing_world :: world where
  "failing_world = \<lparr>reachable = True, autocommit = True,
     rejects = (\<lambda>s. s = Update ''SampleTest'' ''X'' ''CODE'' (Num 5) (Str ''A2'')),
     contents = (\<lambda>log table. nulls_original),
     committed = [], open_connections = 0, messages = []\<rparr>"

definition failing_read_world :: world where
  "failing_read_world = \<lparr>reachable = True, autocommit = True,
     rejects = (\<lambda>s. s = SelectAll ''SampleTest''),
     contents = (\<lambda>log table. nulls_original),
     committed = [], open_connections = 0, messages = []\<rparr>"

section \<open>Lookups in well-formed frames\<close>

lemma filter_fst_map_of:
  "distinct (map fst s) \<Longrightarrow>
   filter (\<lambda>p. fst p = c) s = (case map_of s c of None \<Rightarrow> [] | Some v \<Rightarrow> [(c, v)])"
proof (induction s)
  case Nil
  then show ?case by simp
next
  case (Cons a s)
  obtain k v where a: "a = (k, v)" by (cases a)
  show ?case
  proof (cases "k = c")
    case True
    with Cons.prems a have "c \<notin> fst ` set s" by auto
    then have "filter (\<lambda>p. fst p = c) s = []" by (auto simp: filter_empty_conv)
    with True a show ?thesis by simp
  next
    case False
    with Cons a show ?thesis by simp
  qed
qed

lemma getitem_map_of:
  "distinct (map fst s) \<Longrightarrow>
   getitem s c = (case map_of s c of None \<Rightarrow> Inl (KeyError (Col c)) | Some v \<Rightarrow> Inr v)"
  by (simp add: getitem_def filter_fst_map_of split: option.split)

lemma getitem_zip:
  assumes "distinct cs" "length r = length cs" "c \<in> set cs"
  shows "getitem (zip cs r) c = Inr (the (map_of (zip cs r) c))"
proof -
  from assms have "map_of (zip cs r) c \<noteq> None" by (simp add: map_of_zip_is_None)
  moreover have "distinct (map fst (zip cs r))" using assms by simp
  ultimately show ?thesis by (auto simp: getitem_map_of)
qed

lemma dict_set_fresh: "k \<notin> fst ` set d \<Longrightarrow> dict_set d k v = d @ [(k, v)]"
  by (induction d) auto

lemma row_diff_zip:
  assumes "distinct cs" "length r1 = length cs" "length r2 = length cs"
  shows "set ds \<subseteq> set cs \<Longrightarrow> distinct ds \<Longrightarrow> set ds \<inter> fst ` set d = {} \<Longrightarrow>
    row_diff (zip cs r1) (zip cs r2) ds d =
      Inr (d @ map (\<lambda>c. (c, the (map_of (zip cs r2) c)))
                 (filter (\<lambda>c. cell_changed (the (map_of (zip cs r1) c)) (the (map_of (zip cs r2) c))) ds))"
proof (induction ds arbitrary: d)
  case Nil
  then show ?case by simp
next
  case (Cons c ds)
  have g1: "getitem (zip cs r1) c = Inr (the (map_of (zip cs r1) c))"
    using assms Cons.prems by (simp add: getitem_zip)
  have g2: "getitem (zip cs r2) c = Inr (the (map_of (zip cs r2) c))"
    using assms Cons.prems by (simp add: getitem_zip)
  have fresh: "c \<notin> fst ` set d" using Cons.prems by auto
  have nxt: "set ds \<inter> fst ` set (d @ [(c, v)]) = {}" for v
    using Cons.prems by auto
  have sub: "set ds \<subseteq> set cs" "distinct ds" "set ds \<inter> fst ` set d = {}"
    using Cons.prems by auto
  show ?case
    using Cons.IH[OF sub] Cons.IH[OF sub(1,2) nxt] fresh
    by (simp add: g1 g2 cell_changed_def dict_set_fresh)
qed

lemma wf_row_length:
  "wf_frame df \<Longrightarrow> i < length (rows df) \<Longrightarrow> length (row_values df i) = length (columns df)"
  by (simp add: wf_frame_def list_all_length row_values_def)

lemma cell_changed_same: "\<not> cell_changed v v"
  by (cases v) (simp_all add: cell_changed_def py_ne_def)

lemma isna_read_cell: "isna (read_cell f i c) = isna c"
  by (induction f i c rule: read_cell.induct) simp_all


lemma row_values_nth:
  "j < length (rows df ! i) \<Longrightarrow> row_values df i ! j = read_cell (float_row df) i (rows df ! i ! j)"
  by (simp add: row_values_def)

lemma wf_stored_row_length:
  "wf_frame df \<Longrightarrow> i < length (rows df) \<Longrightarrow> length (rows df ! i) = length (columns df)"
  by (simp add: wf_frame_def list_all_length)

lemma row_diff_rows:
  assumes "wf_frame odf" "wf_frame edf" "columns edf = columns odf"
    and "i < length (rows odf)" "i < length (rows edf)"
  shows "row_diff (zip (columns odf) (row_values odf i)) (zip (columns odf) (row_values edf i)) (columns odf) [] =
      Inr (map (\<lambda>c. (c, the (map_of (zip (columns odf) (row_values edf i)) c)))
             (filter (\<lambda>c. cell_changed (the (map_of (zip (columns odf) (row_values odf i)) c))
                                        (the (map_of (zip (columns odf) (row_values edf i)) c)))
                (columns odf)))"
proof -
  have d: "distinct (columns odf)" using assms(1) by (simp add: wf_frame_def)
  have l1: "length (row_values odf i) = length (columns odf)"
    using assms by (simp add: wf_row_length)
  have l2: "length (row_values edf i) = length (columns odf)"
    using assms wf_row_length[of edf i] by simp
  show ?thesis
    using row_diff_zip[OF d l1 l2, of "columns odf" "[]"] d by simp
qed

lemma row_body_append:
  "row_body odf edf u i acc = Inr acc' \<Longrightarrow> snd acc' = snd acc @ row_changes_of odf edf u i"
  by (auto simp: row_body_def row_changes_of_def split: sum.splits if_splits)

lemma reconcile_rows_append_changes:
  "reconcile_rows odf edf u js acc = Inr acc' \<Longrightarrow>
   snd acc' = snd acc @ concat (map (row_changes_of odf edf u) js)"
proof (induction js arbitrary: acc)
  case Nil
  then show ?case by simp
next
  case (Cons j js)
  then obtain a where a: "row_body odf edf u j acc = Inr a"
    and r: "reconcile_rows odf edf u js a = Inr acc'"
    by (auto split: sum.splits)
  from Cons.IH[OF r] row_body_append[OF a] show ?case by simp
qed

lemma reconcile_changes:
  "reconcile odf edf u = Inr (ks, chs) \<Longrightarrow>
   chs = concat (map (row_changes_of odf edf u) [0..<length (rows odf)])"
  using reconcile_rows_append_changes[of odf edf u "[0..<length (rows odf)]" "([], [])" "(ks, chs)"]
  by (simp add: reconcile_def)

lemma reconcile_rows_app:
  "reconcile_rows odf edf u (xs @ ys) acc =
     (case reconcile_rows odf edf u xs acc of
        Inl e \<Rightarrow> Inl e
      | Inr a \<Rightarrow> reconcile_rows odf edf u ys a)"
  by (induction xs arbitrary: acc) (auto split: sum.splits)

lemma row_body_total:
  assumes "wf_frame odf" "wf_frame edf" "columns edf = columns odf"
    and "i < length (rows odf)" "i < length (rows edf)" "u \<in> set (columns odf)"
  shows "\<exists>acc'. row_body odf edf u i acc = Inr acc'"
proof -
  have d: "distinct (columns odf)" using assms(1) by (simp add: wf_frame_def)
  have l1: "length (row_values odf i) = length (columns odf)"
    using assms by (simp add: wf_row_length)
  have g: "getitem (zip (columns odf) (row_values odf i)) u =
      Inr (the (map_of (zip (columns odf) (row_values odf i)) u))"
    using d l1 assms(6) by (rule getitem_zip)
  show ?thesis
    using assms(3-5) by (simp add: row_body_def loc_def row_diff_rows[OF assms(1-5)] g)
qed

lemma reconcile_rows_total:
  assumes "wf_frame odf" "wf_frame edf" "columns edf = columns odf" "u \<in> set (columns odf)"
  shows "\<forall>j \<in> set js. j < length (rows odf) \<and> j < length (rows edf) \<Longrightarrow>
    \<exists>acc'. reconcile_rows odf edf u js acc = Inr acc'"
proof (induction js arbitrary: acc)
  case Nil
  then show ?case by simp
next
  case (Cons j js)
  then have "j < length (rows odf)" "j < length (rows edf)" by auto
  from row_body_total[OF assms(1-3) this assms(4)]
  obtain a where "row_body odf edf u j acc = Inr a" by blast
  with Cons show ?case by simp
qed

lemma reconcile_total:
  assumes "wf_frame odf" "wf_frame edf" "columns edf = columns odf" "u \<in> set (columns odf)"
    and "length (rows odf) \<le> length (rows edf)"
  shows "\<exists>ks chs. reconcile odf edf u = Inr (ks, chs)"
proof -
  have "\<forall>j \<in> set [0..<length (rows odf)]. j < length (rows odf) \<and> j < length (rows edf)"
    using assms(5) by auto
  from reconcile_rows_total[OF assms(1-4) this, of "([], [])"]
  show ?thesis by (auto simp: reconcile_def)
qed

lemma zip_lookup:
  "wf_frame df \<Longrightarrow> i < length (rows df) \<Longrightarrow> j < length (columns df) \<Longrightarrow>
   map_of (zip (columns df) (row_values df i)) (columns df ! j) = Some (row_values df i ! j)"
  using wf_row_length[of df i] by (simp add: map_of_zip_nth wf_frame_def)

lemma row_changes_of_rows:
  assumes "wf_frame odf" "wf_frame edf" "columns edf = columns odf"
    and "i < length (rows odf)" "i < length (rows edf)" "ju < length (columns odf)"
  shows "row_changes_of odf edf (columns odf ! ju) i =
      map (\<lambda>c. \<lparr>key = row_values odf i ! ju, column = c,
                 new_value = the (map_of (zip (columns odf) (row_values edf i)) c)\<rparr>)
        (filter (\<lambda>c. cell_changed (the (map_of (zip (columns odf) (row_values odf i)) c))
                                   (the (map_of (zip (columns odf) (row_values edf i)) c)))
           (columns odf))"
proof -
  have d: "distinct (columns odf)" using assms(1) by (simp add: wf_frame_def)
  have l1: "length (row_values odf i) = length (columns odf)"
    using assms by (simp add: wf_row_length)
  have "getitem (zip (columns odf) (row_values odf i)) (columns odf ! ju) =
      Inr (the (map_of (zip (columns odf) (row_values odf i)) (columns odf ! ju)))"
    using d l1 assms(6) by (simp add: getitem_zip)
  then have g: "getitem (zip (columns odf) (row_values odf i)) (columns odf ! ju) = Inr (row_values odf i ! ju)"
    using zip_lookup[OF assms(1,4,6)] by simp
  show ?thesis
    using assms(3-5)
    by (simp add: row_changes_of_def row_body_def loc_def row_diff_rows[OF assms(1-5)] g o_def)
qed

lemma row_body_same:
  assumes "wf_frame df" "i < length (rows df)"
  shows "row_body df df u i acc = Inr acc"
  using assms
  by (simp add: row_body_def loc_def row_diff_rows[OF assms(1) assms(1) refl assms(2) assms(2)]
      cell_changed_same)

lemma reconcile_rows_unchanged:
  "\<forall>j \<in> set js. row_body odf edf u j acc = Inr acc \<Longrightarrow> reconcile_rows odf edf u js acc = Inr acc"
  by (induction js) auto





lemma row_body_cases:
  "row_body odf edf u i acc = Inr acc' \<Longrightarrow>
   acc' = acc \<or>
   (\<exists>k blk. blk \<noteq> [] \<and> (\<forall>ch \<in> set blk. key ch = k) \<and>
      acc' = (set_add (fst acc) k, snd acc @ blk))"
  by (auto simp: row_body_def split: sum.splits if_splits)

lemma keys_step:
  assumes "set ks = key ` set chs" "distinct ks" "blk \<noteq> []" "\<forall>ch \<in> set blk. key ch = k"
  shows "set (set_add ks k) = key ` set (chs @ blk) \<and> distinct (set_add ks k)"
proof -
  have "key ` set blk = {k}" using assms(3,4) by (cases blk) auto
  then show ?thesis using assms(1,2) by (auto simp: set_add_def image_Un)
qed

lemma reconcile_rows_keys:
  "reconcile_rows odf edf u js acc = Inr acc' \<Longrightarrow>
   set (fst acc) = key ` set (snd acc) \<Longrightarrow> distinct (fst acc) \<Longrightarrow>
   set (fst acc') = key ` set (snd acc') \<and> distinct (fst acc')"
proof (induction js arbitrary: acc)
  case Nil
  then show ?case by simp
next
  case (Cons j js)
  from Cons.prems(1) obtain a where a: "row_body odf edf u j acc = Inr a"
    and r: "reconcile_rows odf edf u js a = Inr acc'"
    by (auto split: sum.splits)
  have "set (fst a) = key ` set (snd a) \<and> distinct (fst a)"
  proof -
    from row_body_cases[OF a] consider "a = acc"
      | k blk where "blk \<noteq> []" "\<forall>ch \<in> set blk. key ch = k"
          "a = (set_add (fst acc) k, snd acc @ blk)"
      by blast
    then show ?thesis
    proof cases
      case 1
      then show ?thesis using Cons.prems by simp
    next
      case 2
      from keys_step[OF Cons.prems(2,3) 2(1,2)] 2(3) show ?thesis by simp
    qed
  qed
  with Cons.IH[OF r] show ?case by blast
qed

lemma reconcile_keys_count:
  assumes "reconcile odf edf u = Inr (ks, chs)"
  shows "length ks = card (key ` set chs)"
proof -
  have "set (fst (ks, chs)) = key ` set (snd (ks, chs)) \<and> distinct (fst (ks, chs))"
    by (rule reconcile_rows_keys[of odf edf u "[0..<length (rows odf)]" "([], [])"])
       (use assms in \<open>simp_all add: reconcile_def\<close>)
  then show ?thesis by (simp add: distinct_card[symmetric])
qed

section \<open>The batch of updates\<close>

lemma run_batch_app:
  "run_batch t u (xs @ ys) conn w =
     (case run_batch t u xs conn w of
        (Some e, conn', w') \<Rightarrow> (Some e, conn', w')
      | (None, conn', w') \<Rightarrow> run_batch t u ys conn' w')"
  by (induction xs arbitrary: conn w) (auto split: prod.splits option.splits)

lemma run_batch_accepted:
  "\<forall>ch \<in> set chs. \<not> rejects w (update_statement t u ch) \<Longrightarrow>
   run_batch t u chs conn w =
     (None,
      if autocommit w then conn else conn\<lparr>pending := pending conn @ map (update_statement t u) chs\<rparr>,
      if autocommit w then w\<lparr>committed := committed w @ map (update_statement t u) chs\<rparr> else w)"
proof (induction chs arbitrary: conn w)
  case Nil
  then show ?case by simp
next
  case (Cons ch chs)
  show ?case
  proof (cases "autocommit w")
    case True
    let ?w = "w\<lparr>committed := committed w @ [update_statement t u ch]\<rparr>"
    have "\<forall>c \<in> set chs. \<not> rejects ?w (update_statement t u c)" using Cons.prems by simp
    from Cons.IH[OF this, of conn] True Cons.prems show ?thesis
      by (simp add: cursor_execute_def)
  next
    case False
    have "\<forall>c \<in> set chs. \<not> rejects w (update_statement t u c)" using Cons.prems by simp
    from Cons.IH[OF this, of "conn\<lparr>pending := pending conn @ [update_statement t u ch]\<rparr>"]
      False Cons.prems show ?thesis
      by (simp add: cursor_execute_def)
  qed
qed

lemma run_batch_refused:
  assumes "\<forall>ch \<in> set pre. \<not> rejects w (update_statement t u ch)"
    and "rejects w (update_statement t u bad)"
  shows "run_batch t u (pre @ bad # post) conn w =
     (Some QueryError,
      if autocommit w then conn else conn\<lparr>pending := pending conn @ map (update_statement t u) pre\<rparr>,
      if autocommit w then w\<lparr>committed := committed w @ map (update_statement t u) pre\<rparr> else w)"
  using assms(2)
  by (simp add: run_batch_app run_batch_accepted[OF assms(1)] cursor_execute_def)

lemma length_df1_page:
  "length (rows (df1_page df p)) = min rows_per_page (length (rows df) - p * rows_per_page)"
  by (simp add: df1_page_def Let_def)

section \<open>Evaluating the examples\<close>

lemmas reconcile_eval =
  reconcile_def row_body_def loc_def getitem_def set_add_def py_ne_def row_changes_of_def
  row_values_def float_row_def











lemma wf_nulls_original: "wf_frame nulls_original"
  by (simp add: wf_frame_def nulls_original_def)

lemma wf_nulls_edited: "wf_frame nulls_edited"
  by (simp add: wf_frame_def nulls_edited_def)

lemma reconcile_nulls:
  "reconcile nulls_original nulls_edited ''CODE'' =
     Inr ([Str ''A1'', Str ''A2''],
          [\<lparr>key = Str ''A1'', column = ''CODE'', new_value = Str ''B7''\<rparr>,
           \<lparr>key = Str ''A1'', column = ''X'', new_value = Num 4\<rparr>,
           \<lparr>key = Str ''A2'', column = ''X'', new_value = Num 5\<rparr>])"
  by (simp add: reconcile_eval nulls_original_def nulls_edited_def upt_rec)

lemma row_changes_of_nulls_0:
  "row_changes_of nulls_original nulls_edited ''CODE'' 0 =
     [\<lparr>key = Str ''A1'', column = ''CODE'', new_value = Str ''B7''\<rparr>,
      \<lparr>key = Str ''A1'', column = ''X'', new_value = Num 4\<rparr>]"
  by (simp add: reconcile_eval nulls_original_def nulls_edited_def)



lemma reconcile_same_nan:
  "reconcile same_nan_original same_nan_edited ''CODE'' =
     Inr ([NaN (Stored 0)],
          [\<lparr>key = NaN (Stored 0), column = ''NAME'', new_value = Str ''c''\<rparr>,
           \<lparr>key = NaN (Stored 0), column = ''NAME'', new_value = Str ''d''\<rparr>])"
  by (simp add: reconcile_eval same_nan_original_def same_nan_edited_def upt_rec)

lemma reconcile_float_nan:
  "reconcile float_nan_original float_nan_edited ''CODE'' =
     Inr ([NaN (Boxed 0), NaN (Boxed 1)],
          [\<lparr>key = NaN (Boxed 0), column = ''NAME'', new_value = Str ''c''\<rparr>,
           \<lparr>key = NaN (Boxed 1), column = ''NAME'', new_value = Str ''d''\<rparr>])"
  by (simp add: reconcile_eval float_nan_original_def float_nan_edited_def upt_rec)

lemma row_values_isna:
  "wf_frame df \<Longrightarrow> i < length (rows df) \<Longrightarrow> j < length (columns df) \<Longrightarrow>
   isna (row_values df i ! j) = isna (rows df ! i ! j)"
  using wf_stored_row_length[of df i] by (simp add: row_values_nth isna_read_cell)

section \<open>Reconciling a snapshot with itself\<close>

text \<open>
  C2. Reconciling a snapshot against itself yields no cell change, whatever the unique
  column is and whether or not the snapshot has null cells: the loop ends with no
  updated key and an empty list of changes.
\<close>

theorem reconcile_same:
  "wf_frame S \<Longrightarrow> reconcile S S unique_col = Inr ([], [])"
  unfolding reconcile_def
  by (rule reconcile_rows_unchanged) (simp add: row_body_same)

theorem reconcile_same_witness:
  "wf_frame nulls_original \<and> isna (rows nulls_original ! 0 ! 1) \<and> isna (rows nulls_original ! 0 ! 2) \<and>
   reconcile nulls_original nulls_original ''CODE'' = Inr ([], [])"
proof -
  have n: "isna (rows nulls_original ! 0 ! 1)" "isna (rows nulls_original ! 0 ! 2)"
    by (simp_all add: nulls_original_def)
  from reconcile_same[OF wf_nulls_original] wf_nulls_original n show ?thesis by simp
qed

section \<open>Null cells\<close>

text \<open>
  C3. For snapshots of equal length over the same columns, a cell that is null in the
  original and null in the edited snapshot at the same row and column is not reported,
  whichever of the two null representations each side uses: the changes are the
  concatenation of the per-row changes in row order, the changes of that row hold none
  for that column, and when the keys read from the unique column identify the rows, no
  change in the whole result carries that row's key together with that column.
\<close>

theorem null_in_both_not_reported:
  assumes "wf_frame odf" "wf_frame edf" "columns edf = columns odf"
    and "length (rows edf) = length (rows odf)"
    and "ju < length (columns odf)"
    and "i < length (rows odf)" "j < length (columns odf)"
    and "isna (rows odf ! i ! j)" "isna (rows edf ! i ! j)"
  shows "\<exists>ks chs. reconcile odf edf (columns odf ! ju) = Inr (ks, chs) \<and>
     chs = concat (map (row_changes_of odf edf (columns odf ! ju)) [0..<length (rows odf)]) \<and>
     (\<forall>ch \<in> set (row_changes_of odf edf (columns odf ! ju) i). column ch \<noteq> columns odf ! j) \<and>
     (distinct (map (\<lambda>i'. row_values odf i' ! ju) [0..<length (rows odf)]) \<longrightarrow>
        (\<forall>ch \<in> set chs. \<not> (key ch = row_values odf i ! ju \<and> column ch = columns odf ! j)))"
proof -
  let ?u = "columns odf ! ju"
  let ?n = "length (rows odf)"
  have u: "?u \<in> set (columns odf)" using assms(5) by simp
  from reconcile_total[OF assms(1-3) u] assms(4)
  obtain ks chs where r: "reconcile odf edf ?u = Inr (ks, chs)" by auto
  have c: "chs = concat (map (row_changes_of odf edf ?u) [0..<?n])"
    using r by (rule reconcile_changes)
  have ie: "i < length (rows edf)" using assms(4,6) by simp
  have je: "j < length (columns edf)" using assms(3,7) by simp
  have n1: "isna (row_values odf i ! j)"
    using assms(8) by (simp add: row_values_isna[OF assms(1,6,7)])
  have n2: "isna (row_values edf i ! j)"
    using assms(9) by (simp add: row_values_isna[OF assms(2) ie je])
  have "\<not> cell_changed (the (map_of (zip (columns odf) (row_values odf i)) (columns odf ! j)))
                        (the (map_of (zip (columns odf) (row_values edf i)) (columns odf ! j)))"
    using zip_lookup[OF assms(1,6,7)] zip_lookup[OF assms(2) ie, of j] assms(3,7) n1 n2
    by (simp add: cell_changed_def)
  then have blk: "\<forall>ch \<in> set (row_changes_of odf edf ?u i). column ch \<noteq> columns odf ! j"
    by (auto simp: row_changes_of_rows[OF assms(1-3) assms(6) ie assms(5)])
  have keys: "\<forall>ch \<in> set (row_changes_of odf edf ?u i'). key ch = row_values odf i' ! ju"
    if "i' < ?n" for i'
    using that assms(4)
    by (auto simp: row_changes_of_rows[OF assms(1-3) that _ assms(5)])
  have uniq: "\<forall>ch \<in> set chs. \<not> (key ch = row_values odf i ! ju \<and> column ch = columns odf ! j)"
    if dk: "distinct (map (\<lambda>i'. row_values odf i' ! ju) [0..<?n])"
  proof
    fix ch assume "ch \<in> set chs"
    then obtain i' where i': "i' < ?n" and m: "ch \<in> set (row_changes_of odf edf ?u i')"
      using c by auto
    show "\<not> (key ch = row_values odf i ! ju \<and> column ch = columns odf ! j)"
    proof
      assume a: "key ch = row_values odf i ! ju \<and> column ch = columns odf ! j"
      from keys[OF i'] m have "key ch = row_values odf i' ! ju" by simp
      with a have "map (\<lambda>i'. row_values odf i' ! ju) [0..<?n] ! i' =
          map (\<lambda>i'. row_values odf i' ! ju) [0..<?n] ! i"
        using i' assms(6) by simp
      moreover have "i' < length (map (\<lambda>i'. row_values odf i' ! ju) [0..<?n])"
        "i < length (map (\<lambda>i'. row_values odf i' ! ju) [0..<?n])" using i' assms(6) by simp_all
      ultimately have "i' = i" using dk nth_eq_iff_index_eq by blast
      with m blk a show False by simp
    qed
  qed
  from r c blk uniq show ?thesis by blast
qed

theorem null_in_both_not_reported_witness:
  "isna (rows nulls_original ! 0 ! 1) \<and> isna (rows nulls_edited ! 0 ! 1) \<and>
   rows nulls_original ! 0 ! 1 \<noteq> rows nulls_edited ! 0 ! 1 \<and>
   distinct (map (\<lambda>i'. row_values nulls_original i' ! 0) [0..<length (rows nulls_original)]) \<and>
   (\<exists>ks chs. reconcile nulls_original nulls_edited ''CODE'' = Inr (ks, chs) \<and> chs \<noteq> [] \<and>
      (\<forall>ch \<in> set (row_changes_of nulls_original nulls_edited ''CODE'' 0). column ch \<noteq> ''NAME'') \<and>
      (\<forall>ch \<in> set chs. \<not> (key ch = Str ''A1'' \<and> column ch = ''NAME'')))"
proof -
  have c: "columns nulls_edited = columns nulls_original"
    by (simp add: nulls_original_def nulls_edited_def)
  have l: "length (rows nulls_edited) = length (rows nulls_original)"
    by (simp add: nulls_original_def nulls_edited_def)
  have ju: "0 < length (columns nulls_original)" by (simp add: nulls_original_def)
  have i: "0 < length (rows nulls_original)" by (simp add: nulls_original_def)
  have j: "1 < length (columns nulls_original)" by (simp add: nulls_original_def)
  have n1: "isna (rows nulls_original ! 0 ! 1)" by (simp add: nulls_original_def)
  have n2: "isna (rows nulls_edited ! 0 ! 1)" by (simp add: nulls_edited_def)
  have ne: "rows nulls_original ! 0 ! 1 \<noteq> rows nulls_edited ! 0 ! 1"
    by (simp add: nulls_original_def nulls_edited_def)
  have dk: "distinct (map (\<lambda>i'. row_values nulls_original i' ! 0) [0..<length (rows nulls_original)])"
    by (simp add: nulls_original_def row_values_def upt_rec)
  have u: "columns nulls_original ! 0 = ''CODE''" by (simp add: nulls_original_def)
  have k: "row_values nulls_original 0 ! 0 = Str ''A1''"
    by (simp add: nulls_original_def row_values_def)
  have cj: "columns nulls_original ! 1 = ''NAME''" by (simp add: nulls_original_def)
  from null_in_both_not_reported[OF wf_nulls_original wf_nulls_edited c l ju i j n1 n2]
  obtain ks chs where r: "reconcile nulls_original nulls_edited ''CODE'' = Inr (ks, chs)"
    and b: "\<forall>ch \<in> set (row_changes_of nulls_original nulls_edited ''CODE'' 0). column ch \<noteq> ''NAME''"
    and a: "\<forall>ch \<in> set chs. \<not> (key ch = Str ''A1'' \<and> column ch = ''NAME'')"
    using dk u k cj by auto
  have "chs \<noteq> []" using r by (auto simp: reconcile_nulls)
  with r b a n1 n2 ne dk show ?thesis by blast
qed

section \<open>The key of a change\<close>




section \<open>The order of the changes\<close>

text \<open>
  C9. For snapshots of equal length over the same columns, the changes come in row
  order (they are the per-row changes for row 0, row 1, ... one after the other), and
  inside one row their columns follow the column order of the original snapshot.
\<close>

theorem changes_in_row_then_column_order:
  assumes "wf_frame odf" "wf_frame edf" "columns edf = columns odf"
    and "length (rows edf) = length (rows odf)"
    and "ju < length (columns odf)"
  shows "\<exists>ks chs. reconcile odf edf (columns odf ! ju) = Inr (ks, chs) \<and>
     chs = concat (map (row_changes_of odf edf (columns odf ! ju)) [0..<length (rows odf)]) \<and>
     (\<forall>i < length (rows odf).
        subseq (map column (row_changes_of odf edf (columns odf ! ju) i)) (columns odf))"
proof -
  let ?u = "columns odf ! ju"
  have u: "?u \<in> set (columns odf)" using assms(5) by simp
  from reconcile_total[OF assms(1-3) u] assms(4)
  obtain ks chs where r: "reconcile odf edf ?u = Inr (ks, chs)" by auto
  have c: "chs = concat (map (row_changes_of odf edf ?u) [0..<length (rows odf)])"
    using r by (rule reconcile_changes)
  have "subseq (map column (row_changes_of odf edf ?u i)) (columns odf)"
    if "i < length (rows odf)" for i
    using that assms(4)
    by (simp add: row_changes_of_rows[OF assms(1-3) that _ assms(5)] o_def)
  with r c show ?thesis by blast
qed

theorem changes_in_row_then_column_order_witness:
  "(\<exists>ks chs. reconcile nulls_original nulls_edited ''CODE'' = Inr (ks, chs) \<and>
      chs = row_changes_of nulls_original nulls_edited ''CODE'' 0 @
            row_changes_of nulls_original nulls_edited ''CODE'' 1 \<and>
      subseq (map column (row_changes_of nulls_original nulls_edited ''CODE'' 0))
             [''CODE'', ''NAME'', ''X'']) \<and>
   map column (row_changes_of nulls_original nulls_edited ''CODE'' 0) = [''CODE'', ''X'']"
proof -
  have c: "columns nulls_edited = columns nulls_original"
    by (simp add: nulls_original_def nulls_edited_def)
  have l: "length (rows nulls_edited) = length (rows nulls_original)"
    by (simp add: nulls_original_def nulls_edited_def)
  have ju: "0 < length (columns nulls_original)" by (simp add: nulls_original_def)
  have n: "length (rows nulls_original) = 2" by (simp add: nulls_original_def)
  have u: "columns nulls_original ! 0 = ''CODE''" by (simp add: nulls_original_def)
  have cs: "columns nulls_original = [''CODE'', ''NAME'', ''X'']" by (simp add: nulls_original_def)
  have up: "[0..<2] = [0, Suc 0]" by (simp add: upt_rec)
  from changes_in_row_then_column_order[OF wf_nulls_original wf_nulls_edited c l ju]
  obtain ks chs where r: "reconcile nulls_original nulls_edited ''CODE'' = Inr (ks, chs)"
    and d: "chs = row_changes_of nulls_original nulls_edited ''CODE'' 0 @
            row_changes_of nulls_original nulls_edited ''CODE'' 1"
    and s: "subseq (map column (row_changes_of nulls_original nulls_edited ''CODE'' 0))
             [''CODE'', ''NAME'', ''X'']"
    using u n cs up by auto
  have "map column (row_changes_of nulls_original nulls_edited ''CODE'' 0) = [''CODE'', ''X'']"
    by (simp add: row_changes_of_nulls_0)
  with r d s show ?thesis by blast
qed

section \<open>One edited cell\<close>




section \<open>Nothing to save\<close>

text \<open>
  C6, as the code has it. With no change to apply, the second half of the function does
  nothing to the database: no connection is opened, nothing is executed or committed,
  no exception leaves the function, and the page shows the message
  "No changes to save.", which is neither the error box nor a count of updated rows.
\<close>

theorem apply_no_changes:
  "apply_changes w table_name unique_col (ks, []) = (None, w\<lparr>messages := messages w @ [Info]\<rparr>)"
  by (simp add: apply_changes_def display_def)

theorem apply_no_changes_witness:
  "update_changed_cells accepting_world nulls_original nulls_original ''SampleTest'' ''CODE'' =
     (None, accepting_world\<lparr>messages := [Info]\<rparr>)"
proof -
  have r: "reconcile nulls_original nulls_original ''CODE'' = Inr ([], [])"
    by (simp add: reconcile_eval nulls_original_def cell_changed_def upt_rec)
  from apply_no_changes[of accepting_world "''SampleTest''" "''CODE''" "[]"]
  show ?thesis by (simp add: update_changed_cells_def r accepting_world_def)
qed

text \<open>
  C6 as stated fails in its count: with no change the page shows the info message and
  not the success message with a count of zero rows.
\<close>

theorem apply_no_changes_shows_no_count:
  "apply_changes accepting_world ''SampleTest'' ''CODE'' ([], []) =
     (None, accepting_world\<lparr>messages := [Info]\<rparr>) \<and>
   messages (snd (apply_changes accepting_world ''SampleTest'' ''CODE'' ([], []))) \<noteq> [Success 0]"
  by (simp add: apply_changes_def display_def accepting_world_def)

section \<open>A batch that succeeds\<close>

text \<open>
  C7. When the loop has found a non-empty list of changes, the database can be reached
  and it accepts every statement, then one parameterized update statement per change
  is committed, in the order of the changes, each setting the change's column to its
  new value where the unique column equals its key, and the count shown is the number
  of distinct keys among the changes, not the number of changes.
\<close>

theorem successful_batch_outcome:
  assumes "reconcile original_df edited_df unique_col = Inr (ks, chs)" "chs \<noteq> []"
    and "reachable w"
    and "\<forall>ch \<in> set chs. \<not> rejects w (update_statement table_name unique_col ch)"
  shows "update_changed_cells w original_df edited_df table_name unique_col =
     (None, w\<lparr>committed := committed w @ map (update_statement table_name unique_col) chs,
               messages := messages w @ [Success (card (key ` set chs))]\<rparr>)"
proof -
  have r: "\<forall>ch \<in> set chs. \<not> rejects (w\<lparr>open_connections := Suc (open_connections w)\<rparr>)
      (update_statement table_name unique_col ch)"
    using assms(4) by simp
  have n: "length ks = card (key ` set chs)"
    using assms(1) by (rule reconcile_keys_count)
  show ?thesis
    using assms(2,3)
    by (simp add: update_changed_cells_def assms(1) apply_changes_def get_connection_def
        run_batch_accepted[OF r] conn_commit_def conn_close_def display_def n)
qed

theorem successful_batch_outcome_witness:
  "reconcile nulls_original nulls_edited ''CODE'' =
     Inr ([Str ''A1'', Str ''A2''],
          [\<lparr>key = Str ''A1'', column = ''CODE'', new_value = Str ''B7''\<rparr>,
           \<lparr>key = Str ''A1'', column = ''X'', new_value = Num 4\<rparr>,
           \<lparr>key = Str ''A2'', column = ''X'', new_value = Num 5\<rparr>]) \<and>
   reachable accepting_world \<and>
   update_changed_cells accepting_world nulls_original nulls_edited ''SampleTest'' ''CODE'' =
     (None, accepting_world\<lparr>
        committed := [Update ''SampleTest'' ''CODE'' ''CODE'' (Str ''B7'') (Str ''A1''),
                      Update ''SampleTest'' ''X'' ''CODE'' (Num 4) (Str ''A1''),
                      Update ''SampleTest'' ''X'' ''CODE'' (Num 5) (Str ''A2'')],
        messages := [Success 2]\<rparr>)"
proof -
  let ?chs = "[\<lparr>key = Str ''A1'', column = ''CODE'', new_value = Str ''B7''\<rparr>,
           \<lparr>key = Str ''A1'', column = ''X'', new_value = Num 4\<rparr>,
           \<lparr>key = Str ''A2'', column = ''X'', new_value = Num 5\<rparr>]"
  have h2: "?chs \<noteq> []" by simp
  have h4: "reachable accepting_world" by (simp add: accepting_world_def)
  have h5: "\<forall>ch \<in> set ?chs. \<not> rejects accepting_world (update_statement ''SampleTest'' ''CODE'' ch)"
    by (simp add: accepting_world_def)
  have c: "card (key ` set ?chs) = 2" by simp
  from successful_batch_outcome[OF reconcile_nulls h2 h4 h5] reconcile_nulls h4 c
  show ?thesis by (simp add: update_statement_def accepting_world_def)
qed

text \<open>
  NaN keys: one NaN object that is the key of two rows is counted once, and the NaN
  keys of two rows of a float64 column are two objects and are counted twice.
\<close>

lemma same_nan_object_counts_once:
  "update_changed_cells accepting_world same_nan_original same_nan_edited ''SampleTest'' ''CODE'' =
     (None, accepting_world\<lparr>
        committed := [Update ''SampleTest'' ''NAME'' ''CODE'' (Str ''c'') (NaN (Stored 0)),
                      Update ''SampleTest'' ''NAME'' ''CODE'' (Str ''d'') (NaN (Stored 0))],
        messages := [Success 1]\<rparr>)"
  by (simp add: update_changed_cells_def reconcile_same_nan apply_changes_def get_connection_def
      cursor_execute_def update_statement_def conn_commit_def conn_close_def display_def
      accepting_world_def)

lemma float_nan_keys_count_twice:
  "update_changed_cells accepting_world float_nan_original float_nan_edited ''SampleTest'' ''CODE'' =
     (None, accepting_world\<lparr>
        committed := [Update ''SampleTest'' ''NAME'' ''CODE'' (Str ''c'') (NaN (Boxed 0)),
                      Update ''SampleTest'' ''NAME'' ''CODE'' (Str ''d'') (NaN (Boxed 1))],
        messages := [Success 2]\<rparr>)"
  by (simp add: update_changed_cells_def reconcile_float_nan apply_changes_def get_connection_def
      cursor_execute_def update_statement_def conn_commit_def conn_close_def display_def
      accepting_world_def)

section \<open>A batch that fails\<close>

text \<open>
  C1, as the code has it. When the database can be reached, accepts the statements of
  a prefix of the batch and refuses the next one, the function shows one error, runs
  no later statement, returns normally and leaves as many connections open as before.
  It issues neither a commit nor a rollback: the accepted prefix stays committed when
  the session commits each statement as it runs, and nothing of the call is committed
  when the session commits on request only.
\<close>

theorem failed_batch_outcome:
  assumes "reachable w"
    and "\<forall>ch \<in> set pre. \<not> rejects w (update_statement table_name unique_col ch)"
    and "rejects w (update_statement table_name unique_col bad)"
  shows "apply_changes w table_name unique_col (ks, pre @ bad # post) =
     (None, w\<lparr>committed := committed w @
                  (if autocommit w then map (update_statement table_name unique_col) pre else []),
               messages := messages w @ [Error QueryError]\<rparr>)"
proof -
  have r: "\<forall>ch \<in> set pre. \<not> rejects (w\<lparr>open_connections := Suc (open_connections w)\<rparr>)
      (update_statement table_name unique_col ch)"
    using assms(2) by simp
  have b: "rejects (w\<lparr>open_connections := Suc (open_connections w)\<rparr>)
      (update_statement table_name unique_col bad)"
    using assms(3) by simp
  show ?thesis
    using assms(1)
    by (simp add: apply_changes_def get_connection_def run_batch_refused[OF r b]
        conn_close_def display_def)
qed

theorem failed_batch_outcome_witness:
  "reachable deferring_world \<and>
   \<not> rejects deferring_world (update_statement ''SampleTest'' ''CODE''
        \<lparr>key = Str ''A1'', column = ''X'', new_value = Num 4\<rparr>) \<and>
   rejects deferring_world (update_statement ''SampleTest'' ''CODE''
        \<lparr>key = Str ''A2'', column = ''X'', new_value = Num 5\<rparr>) \<and>
   apply_changes deferring_world ''SampleTest'' ''CODE''
     ([Str ''A1'', Str ''A2''],
      [\<lparr>key = Str ''A1'', column = ''X'', new_value = Num 4\<rparr>,
       \<lparr>key = Str ''A2'', column = ''X'', new_value = Num 5\<rparr>]) =
     (None, deferring_world\<lparr>messages := [Error QueryError]\<rparr>)"
proof -
  let ?a = "\<lparr>key = Str ''A1'', column = ''X'', new_value = Num 4\<rparr>"
  let ?b = "\<lparr>key = Str ''A2'', column = ''X'', new_value = Num 5\<rparr>"
  have h1: "reachable deferring_world" by (simp add: deferring_world_def)
  have h2: "\<forall>ch \<in> set [?a]. \<not> rejects deferring_world (update_statement ''SampleTest'' ''CODE'' ch)"
    by (simp add: deferring_world_def update_statement_def)
  have h3: "rejects deferring_world (update_statement ''SampleTest'' ''CODE'' ?b)"
    by (simp add: deferring_world_def update_statement_def)
  from failed_batch_outcome[OF h1 h2 h3, of "[Str ''A1'', Str ''A2'']" "[]"] h1 h2 h3
  show ?thesis by (simp add: deferring_world_def)
qed

text \<open>
  C1 as stated fails in a session that commits each statement as it runs: the third
  update is refused, one error is shown, and the first two updates of the same call
  are committed.
\<close>

theorem failed_batch_not_rolled_back:
  "committed failing_world = [] \<and>
   rejects failing_world (Update ''SampleTest'' ''X'' ''CODE'' (Num 5) (Str ''A2'')) \<and>
   update_changed_cells failing_world nulls_original nulls_edited ''SampleTest'' ''CODE'' =
     (None, failing_world\<lparr>
        committed := [Update ''SampleTest'' ''CODE'' ''CODE'' (Str ''B7'') (Str ''A1''),
                      Update ''SampleTest'' ''X'' ''CODE'' (Num 4) (Str ''A1'')],
        messages := [Error QueryError]\<rparr>)"
  by (simp add: update_changed_cells_def reconcile_nulls apply_changes_def get_connection_def
      cursor_execute_def update_statement_def conn_close_def display_def failing_world_def)

section \<open>Connections\<close>

lemma run_batch_open_connections:
  "open_connections (snd (snd (run_batch t u chs conn w))) = open_connections w"
  by (induction chs arbitrary: conn w)
     (auto simp: cursor_execute_def split: prod.splits option.splits)

lemma apply_changes_releases:
  "open_connections (snd (apply_changes w t u kc)) = open_connections w"
proof (cases "snd kc \<noteq> [] \<and> reachable w")
  case True
  let ?w1 = "w\<lparr>open_connections := Suc (open_connections w)\<rparr>"
  obtain r conn2 w2 where b: "run_batch t u (snd kc) \<lparr>pending = []\<rparr> ?w1 = (r, conn2, w2)"
    by (cases "run_batch t u (snd kc) \<lparr>pending = []\<rparr> ?w1") auto
  have "open_connections w2 = Suc (open_connections w)"
    using run_batch_open_connections[of t u "snd kc" "\<lparr>pending = []\<rparr>" ?w1] b by simp
  with True b show ?thesis
    by (cases r)
       (simp_all add: apply_changes_def get_connection_def conn_commit_def conn_close_def
          display_def)
next
  case False
  then show ?thesis
    by (auto simp: apply_changes_def get_connection_def display_def)
qed

lemma add_column_releases:
  "reachable w \<Longrightarrow>
   open_connections (snd (add_column_to_snowflake w table_name column_name)) = open_connections w"
  by (simp add: add_column_to_snowflake_def get_connection_def cursor_execute_def conn_commit_def
      conn_close_def display_def)

lemma get_data_releases_after_read:
  "\<not> rejects w (SelectAll table) \<Longrightarrow> open_connections (snd (get_data w table)) = open_connections w"
  by (simp add: get_data_def get_connection_def conn_close_def)

text \<open>
  C8. The update and the add-column operation close their connection on the way out of
  a failed statement, as the two lemmas above show. \<open>get_data\<close> does not: when the
  select is refused, the exception leaves the function before \<^verbatim>\<open>conn.close()\<close>, and
  the connection it opened stays open.
\<close>

theorem get_data_leaves_connection_open:
  "get_data failing_read_world ''SampleTest'' =
     (Inl QueryError, failing_read_world\<lparr>open_connections := 1\<rparr>)"
  by (simp add: get_data_def get_connection_def failing_read_world_def)

section \<open>Saving from a page\<close>

text \<open>
  C10. The save button passes the whole filtered frame as the original and the grid's
  copy of the current page, of at most three rows, as the edited frame. When the
  filtered frame has more than three rows, the loop over the original's row labels asks
  the edited frame for the first label past the page, and the function ends with the
  \<^verbatim>\<open>KeyError\<close> of that label, before anything is sent to the database.
\<close>

theorem save_beyond_page_fails:
  assumes "wf_frame df1_filtered" "''CODE'' \<in> set (columns df1_filtered)"
    and "rows_per_page < length (rows df1_filtered)"
    and "wf_frame (grid (df1_page df1_filtered page_structure))"
    and "columns (grid (df1_page df1_filtered page_structure)) = columns df1_filtered"
    and "length (rows (grid (df1_page df1_filtered page_structure))) =
         length (rows (df1_page df1_filtered page_structure))"
  shows "length (rows (df1_page df1_filtered page_structure)) \<le> rows_per_page \<and>
     save_changes w grid df1_filtered page_structure =
       (Some (KeyError (Row (length (rows (df1_page df1_filtered page_structure))))), w)"
proof -
  let ?e = "grid (df1_page df1_filtered page_structure)"
  let ?m = "length (rows (df1_page df1_filtered page_structure))"
  let ?n = "length (rows df1_filtered)"
  have m: "?m \<le> rows_per_page" by (simp add: length_df1_page)
  then have mn: "?m < ?n" using assms(3) by simp
  have split: "[0..<?n] = [0..<?m] @ ?m # [Suc ?m..<?n]"
  proof -
    have "[0..<?n] = [0..<?m] @ [?m..<?n]"
      using mn upt_add_eq_append[of 0 ?m "?n - ?m"] by simp
    then show ?thesis using mn by (simp add: upt_conv_Cons)
  qed
  have "\<forall>j \<in> set [0..<?m]. j < ?n \<and> j < length (rows ?e)"
    using mn assms(6) by auto
  from reconcile_rows_total[OF assms(1,4,5,2) this, of "([], [])"]
  obtain acc where before: "reconcile_rows df1_filtered ?e ''CODE'' [0..<?m] ([], []) = Inr acc"
    by blast
  have at: "row_body df1_filtered ?e ''CODE'' ?m acc = Inl (KeyError (Row ?m))"
    using mn assms(6) by (simp add: row_body_def loc_def)
  have "reconcile df1_filtered ?e ''CODE'' = Inl (KeyError (Row ?m))"
    unfolding reconcile_def
    by (subst split) (simp add: reconcile_rows_app before at)
  then show ?thesis
    using m by (simp add: save_changes_def Let_def update_changed_cells_def)
qed

theorem save_beyond_page_fails_witness:
  "wf_frame five_rows \<and> rows_per_page < length (rows five_rows) \<and>
   length (rows (df1_page five_rows 0)) = 3 \<and>
   save_changes accepting_world (\<lambda>page. page) five_rows 0 = (Some (KeyError (Row 3)), accepting_world) \<and>
   length (rows (df1_page five_rows 1)) = 2 \<and>
   save_changes accepting_world (\<lambda>page. page) five_rows 1 = (Some (KeyError (Row 2)), accepting_world)"
proof -
  have w: "wf_frame five_rows" by (simp add: wf_frame_def five_rows_def)
  have c: "''CODE'' \<in> set (columns five_rows)" by (simp add: five_rows_def)
  have n: "rows_per_page < length (rows five_rows)" by (simp add: five_rows_def rows_per_page_def)
  have wp: "wf_frame (df1_page five_rows p)" for p
    using w by (auto simp: wf_frame_def df1_page_def Let_def list_all_iff dest: in_set_takeD in_set_dropD)
  have cp: "columns (df1_page five_rows p) = columns five_rows" for p
    by (simp add: df1_page_def Let_def)
  have l0: "length (rows (df1_page five_rows 0)) = 3"
    by (simp add: length_df1_page five_rows_def rows_per_page_def)
  have l1: "length (rows (df1_page five_rows 1)) = 2"
    by (simp add: length_df1_page five_rows_def rows_per_page_def)
  from save_beyond_page_fails[of five_rows "\<lambda>page. page" 0 accepting_world, OF w c n wp cp refl]
    save_beyond_page_fails[of five_rows "\<lambda>page. page" 1 accepting_world, OF w c n wp cp refl]
    w n l0 l1
  show ?thesis by simp
qed

end
